theory Spec2Isabelle
  imports Main "HOL-Library.FSet" "HOL-Library.Product_Lexorder"
begin

section \<open>Data model of minesweeper.py\<close>

text \<open>
  A cell is the Python tuple \<open>(i, j)\<close> of two unbounded integers.  A Python \<open>set\<close> of
  cells is a finite set (\<open>cell fset\<close>): membership, \<open>add\<close>, \<open>discard\<close>, \<open>-\<close>, \<open>len\<close> and
  \<open>==\<close> are the operations of \<open>fset\<close>, and \<open>==\<close> on two \<open>Sentence\<close> objects (equal cells
  and equal count) is equality of the record below.

  Python iterates a set in the order of its hash table.  Wherever the source loops over a
  set, the model loops over the ascending enumeration \<open>sorted_list_of_fset\<close>; for each such
  loop a lemma below shows that the result is the same for every enumeration of the set.
  The one place where the order shows in the result, \<open>make_safe_move\<close>, takes the
  enumeration as an argument.
\<close>

type_synonym cell = "int \<times> int"

datatype error = ValueError | KeyError | IndexError

record Sentence =
  cells :: "cell fset"
  count :: int

record MinesweeperAI =
  height :: int
  width :: int
  moves_made :: "cell fset"
  mines :: "cell fset"
  safes :: "cell fset"
  knowledge :: "Sentence list"

text \<open>\<open>range(a, b)\<close>: the integers from \<open>a\<close> up to \<open>b - 1\<close>.\<close>

definition py_range :: "int \<Rightarrow> int \<Rightarrow> int list" where
  "py_range a b = [a..b - 1]"

text \<open>\<open>list.remove(x)\<close>: drops the first element equal to \<open>x\<close>, ValueError if there is none.\<close>

definition list_remove :: "'a \<Rightarrow> 'a list \<Rightarrow> error + 'a list" where
  "list_remove x xs = (if x \<in> set xs then Inr (remove1 x xs) else Inl ValueError)"

text \<open>\<open>set.remove(x)\<close>: KeyError if \<open>x\<close> is not a member.\<close>

definition set_remove :: "'a \<Rightarrow> 'a fset \<Rightarrow> error + 'a fset" where
  "set_remove x s = (if x |\<in>| s then Inr (s |-| {|x|}) else Inl KeyError)"

text \<open>\<open>random.randrange(n)\<close>: ValueError for \<open>n \<le> 0\<close>, otherwise some integer of
  \<open>[0, n)\<close>.  The argument \<open>d\<close> is the random source; \<open>d mod n\<close> takes every value of the
  range and no other.\<close>

definition randrange :: "int \<Rightarrow> int \<Rightarrow> error + int" where
  "randrange n d = (if n \<le> 0 then Inl ValueError else Inr (d mod n))"

text \<open>\<open>xs[i]\<close>: a negative index counts from the end; IndexError outside the list.\<close>

definition py_index :: "'a list \<Rightarrow> int \<Rightarrow> error + 'a" where
  "py_index xs i =
     (if - int (length xs) \<le> i \<and> i < int (length xs)
      then Inr (xs ! nat (if i < 0 then i + int (length xs) else i))
      else Inl IndexError)"

subsection \<open>class Minesweeper\<close>

text \<open>The game, as far as its queries \<open>is_mine\<close> and \<open>nearby_mines\<close> read it: the
  dimensions and the board, a list of rows of booleans.\<close>

record Minesweeper =
  board_height :: int
  board_width :: int
  board :: "bool list list"

text \<open>\<open>self.board[i][j]\<close>.\<close>

definition board_at :: "Minesweeper \<Rightarrow> int \<Rightarrow> int \<Rightarrow> error + bool" where
  "board_at g i j =
     (case py_index (board g) i of
        Inl e \<Rightarrow> Inl e
      | Inr row \<Rightarrow> py_index row j)"

definition is_mine :: "Minesweeper \<Rightarrow> cell \<Rightarrow> error + bool" where
  "is_mine g cell = (case cell of (i, j) \<Rightarrow> board_at g i j)"

text \<open>\<open>nearby_mines\<close>: the inner loop over the columns, the outer loop over the rows;
  \<open>n\<close> is the running count.\<close>

fun nearby_cols :: "Minesweeper \<Rightarrow> cell \<Rightarrow> int \<Rightarrow> int list \<Rightarrow> int \<Rightarrow> error + int" where
  "nearby_cols g cell i [] n = Inr n"
| "nearby_cols g cell i (j # js) n =
     (if (i, j) = cell then nearby_cols g cell i js n
      else if 0 \<le> i \<and> i < board_height g \<and> 0 \<le> j \<and> j < board_width g
      then (case board_at g i j of
              Inl e \<Rightarrow> Inl e
            | Inr b \<Rightarrow> nearby_cols g cell i js (if b then n + 1 else n))
      else nearby_cols g cell i js n)"

fun nearby_rows :: "Minesweeper \<Rightarrow> cell \<Rightarrow> int list \<Rightarrow> int \<Rightarrow> error + int" where
  "nearby_rows g cell [] n = Inr n"
| "nearby_rows g cell (i # rows) n =
     (case nearby_cols g cell i (py_range (snd cell - 1) (snd cell + 2)) n of
        Inl e \<Rightarrow> Inl e
      | Inr n' \<Rightarrow> nearby_rows g cell rows n')"

definition nearby_mines :: "Minesweeper \<Rightarrow> cell \<Rightarrow> error + int" where
  "nearby_mines g cell = nearby_rows g cell (py_range (fst cell - 1) (fst cell + 2)) 0"

subsection \<open>class Sentence\<close>

definition Sentence_init :: "cell fset \<Rightarrow> int \<Rightarrow> Sentence" where
  "Sentence_init cs n = \<lparr>cells = cs, count = n\<rparr>"

definition known_mines :: "Sentence \<Rightarrow> cell fset" where
  "known_mines s = (if int (fcard (cells s)) = count s then cells s else {||})"

definition known_safes :: "Sentence \<Rightarrow> cell fset" where
  "known_safes s = (if count s = 0 then cells s else {||})"

text \<open>\<open>Sentence.mark_mine\<close>: the loop over the copy of the cells, left at the first match.\<close>

fun mark_mine_loop :: "cell list \<Rightarrow> cell \<Rightarrow> Sentence \<Rightarrow> Sentence" where
  "mark_mine_loop [] cell s = s"
| "mark_mine_loop (cell0 # clone) cell s =
     (if cell0 = cell
      then s\<lparr>cells := cells s |-| {|cell|}, count := count s - 1\<rparr>
      else mark_mine_loop clone cell s)"

definition Sentence_mark_mine :: "cell \<Rightarrow> Sentence \<Rightarrow> Sentence" where
  "Sentence_mark_mine cell s = mark_mine_loop (sorted_list_of_fset (cells s)) cell s"

definition Sentence_mark_safe :: "cell \<Rightarrow> Sentence \<Rightarrow> Sentence" where
  "Sentence_mark_safe cell s = s\<lparr>cells := cells s |-| {|cell|}\<rparr>"

subsection \<open>class MinesweeperAI\<close>

definition MinesweeperAI_init :: "int \<Rightarrow> int \<Rightarrow> MinesweeperAI" where
  "MinesweeperAI_init h w =
     \<lparr>height = h, width = w, moves_made = {||}, mines = {||}, safes = {||}, knowledge = []\<rparr>"

text \<open>The sentences of the knowledge base are separate objects, none stored twice, so
  updating each in place is a \<open>map\<close> over the list.\<close>

definition mark_mine :: "cell \<Rightarrow> MinesweeperAI \<Rightarrow> MinesweeperAI" where
  "mark_mine cell ai = ai\<lparr>knowledge := map (Sentence_mark_mine cell) (knowledge ai)\<rparr>"

definition mark_safe :: "cell \<Rightarrow> MinesweeperAI \<Rightarrow> MinesweeperAI" where
  "mark_safe cell ai = ai\<lparr>knowledge := map (Sentence_mark_safe cell) (knowledge ai)\<rparr>"

definition neighbors :: "MinesweeperAI \<Rightarrow> cell \<Rightarrow> cell list" where
  "neighbors ai cell =
     concat (map (\<lambda>i. concat (map (\<lambda>j.
         if (i, j) = cell then []
         else if 0 \<le> i \<and> i < height ai \<and> 0 \<le> j \<and> j < width ai then [(i, j)]
         else [])
       (py_range (snd cell - 1) (snd cell + 2))))
     (py_range (fst cell - 1) (fst cell + 2)))"

text \<open>\<open>mark_mines_safes\<close>: the two inner loops over the copied sets, then the loop over
  the knowledge base.  The list keeps its length while its sentences change, so the
  loop visits the positions \<open>0 .. len - 1\<close> and reads each sentence as it is by then.\<close>

definition mark_found_mines :: "cell list \<Rightarrow> MinesweeperAI \<Rightarrow> MinesweeperAI" where
  "mark_found_mines cs ai =
     fold (\<lambda>cell a. (mark_mine cell a)\<lparr>mines := finsert cell (mines a)\<rparr>) cs ai"

definition mark_found_safes :: "cell list \<Rightarrow> MinesweeperAI \<Rightarrow> MinesweeperAI" where
  "mark_found_safes cs ai =
     fold (\<lambda>cell a. if cell |\<notin>| moves_made a
                     then (mark_safe cell a)\<lparr>safes := finsert cell (safes a)\<rparr>
                     else a) cs ai"

definition mark_sentence :: "Sentence \<Rightarrow> MinesweeperAI \<Rightarrow> MinesweeperAI" where
  "mark_sentence sentence ai =
     (let mines_of_sentence = known_mines sentence;
          safes_of_sentence = known_safes sentence;
          ai1 = (if fcard mines_of_sentence \<noteq> 0
                 then mark_found_mines (sorted_list_of_fset mines_of_sentence) ai
                 else ai)
      in if fcard safes_of_sentence \<noteq> 0
         then mark_found_safes (sorted_list_of_fset safes_of_sentence) ai1
         else ai1)"

definition mark_mines_safes :: "MinesweeperAI \<Rightarrow> MinesweeperAI" where
  "mark_mines_safes ai =
     fold (\<lambda>k a. mark_sentence (knowledge a ! k) a) [0..<length (knowledge ai)] ai"

text \<open>\<open>clean_empty_sentences\<close>: for each empty sentence of the copy, \<open>list.remove\<close> on the
  knowledge base, which may raise.\<close>

fun clean_empty_loop :: "Sentence list \<Rightarrow> Sentence list \<Rightarrow> error + Sentence list" where
  "clean_empty_loop [] kb = Inr kb"
| "clean_empty_loop (sentence # clone) kb =
     (if cells sentence = {||}
      then (case list_remove sentence kb of
              Inl e \<Rightarrow> Inl e
            | Inr kb' \<Rightarrow> clean_empty_loop clone kb')
      else clean_empty_loop clone kb)"

definition clean_empty_sentences :: "MinesweeperAI \<Rightarrow> error + MinesweeperAI" where
  "clean_empty_sentences ai =
     (case clean_empty_loop (knowledge ai) (knowledge ai) of
        Inl e \<Rightarrow> Inl e
      | Inr kb \<Rightarrow> Inr (ai\<lparr>knowledge := kb\<rparr>))"

text \<open>\<open>clean_identical_sentences\<close>: each sentence of the copy is compared with the
  sentences after it; every match attempts one \<open>remove\<close>, and a failed attempt is
  swallowed by the \<open>except\<close> clause.\<close>

fun clean_identical_loop :: "Sentence list \<Rightarrow> Sentence list \<Rightarrow> Sentence list" where
  "clean_identical_loop [] kb = kb"
| "clean_identical_loop (sentence # rest) kb =
     clean_identical_loop rest
       (fold (\<lambda>other k. if sentence = other
                         then (case list_remove sentence k of Inl e \<Rightarrow> k | Inr k' \<Rightarrow> k')
                         else k) rest kb)"

definition clean_identical_sentences :: "MinesweeperAI \<Rightarrow> MinesweeperAI" where
  "clean_identical_sentences ai =
     ai\<lparr>knowledge := clean_identical_loop (knowledge ai) (knowledge ai)\<rparr>"

text \<open>\<open>clean_exceuted_safes\<close>: \<open>set.remove\<close> for each cell of the copy that is a move.\<close>

fun clean_exceuted_loop :: "cell list \<Rightarrow> cell fset \<Rightarrow> cell fset \<Rightarrow> error + cell fset" where
  "clean_exceuted_loop [] moves sf = Inr sf"
| "clean_exceuted_loop (cell # clone) moves sf =
     (if cell |\<in>| moves
      then (case set_remove cell sf of
              Inl e \<Rightarrow> Inl e
            | Inr sf' \<Rightarrow> clean_exceuted_loop clone moves sf')
      else clean_exceuted_loop clone moves sf)"

definition clean_exceuted_safes :: "MinesweeperAI \<Rightarrow> error + MinesweeperAI" where
  "clean_exceuted_safes ai =
     (case clean_exceuted_loop (sorted_list_of_fset (safes ai)) (moves_made ai) (safes ai) of
        Inl e \<Rightarrow> Inl e
      | Inr sf \<Rightarrow> Inr (ai\<lparr>safes := sf\<rparr>))"

subsection \<open>add_knowledge\<close>

text \<open>The loop over the neighbours of the revealed cell: the state is the list \<open>cells\<close>
  and the running \<open>count\<close>.\<close>

fun new_sentence_loop ::
  "MinesweeperAI \<Rightarrow> cell list \<Rightarrow> cell list \<times> int \<Rightarrow> cell list \<times> int" where
  "new_sentence_loop ai [] (cs, n) = (cs, n)"
| "new_sentence_loop ai (cell1 # rest) (cs, n) =
     (if cell1 |\<in>| mines ai then new_sentence_loop ai rest (cs, n - 1)
      else if cell1 |\<in>| safes ai \<or> cell1 |\<in>| moves_made ai
           then new_sentence_loop ai rest (cs, n)
      else new_sentence_loop ai rest (cs @ [cell1], n))"

definition add_new_sentence :: "cell \<Rightarrow> int \<Rightarrow> MinesweeperAI \<Rightarrow> MinesweeperAI" where
  "add_new_sentence cell n ai =
     (case new_sentence_loop ai (neighbors ai cell) ([], n) of
        (cs, n') \<Rightarrow>
          if length cs \<noteq> 0
          then (let new_sentence = Sentence_init (fset_of_list cs) n'
                in if new_sentence \<notin> set (knowledge ai)
                   then ai\<lparr>knowledge := knowledge ai @ [Sentence_init (fset_of_list cs) n']\<rparr>
                   else ai)
          else ai)"

text \<open>The block "mark, clean empty, clean identical", run twice by \<open>add_knowledge\<close>.\<close>

definition mark_and_clean :: "MinesweeperAI \<Rightarrow> error + MinesweeperAI" where
  "mark_and_clean ai =
     (case clean_empty_sentences (mark_mines_safes ai) of
        Inl e \<Rightarrow> Inl e
      | Inr ai' \<Rightarrow> Inr (clean_identical_sentences ai'))"

text \<open>The subset inference.  The body of the inner loop works on the pair
  \<open>(sub_sentences, count_subset)\<close>; \<open>is_subset\<close> starts as the empty list in each round.\<close>

definition filter_known :: "MinesweeperAI \<Rightarrow> cell list \<Rightarrow> cell fset \<Rightarrow> cell fset" where
  "filter_known ai is_subset0 is_subset =
     fold (\<lambda>cell s. if cell |\<in>| moves_made ai \<or> cell |\<in>| safes ai \<or> cell |\<in>| mines ai
                     then s |-| {|cell|} else s) is_subset0 is_subset"

definition infer_pair ::
  "MinesweeperAI \<Rightarrow> Sentence \<Rightarrow> Sentence \<Rightarrow> Sentence list \<times> int \<Rightarrow> Sentence list \<times> int" where
  "infer_pair ai sentence sentence1 st =
     (case st of (sub_sentences, count_subset0) \<Rightarrow>
        let (is_subset1, count_subset) =
              (if cells sentence |-| cells sentence1 = {||}
               then (cells sentence1 |-| cells sentence, \<bar>count sentence1 - count sentence\<bar>)
               else ({||}, count_subset0));
            is_subset = filter_known ai (sorted_list_of_fset is_subset1) is_subset1
        in if is_subset \<noteq> {||} \<and> count_subset \<noteq> - 1
           then (let new_sentence = Sentence_init is_subset count_subset
                 in if new_sentence \<notin> set (knowledge ai)
                    then (sub_sentences @ [new_sentence], count_subset)
                    else (sub_sentences, count_subset))
           else (sub_sentences, count_subset))"

definition infer_sub_sentences :: "MinesweeperAI \<Rightarrow> Sentence list" where
  "infer_sub_sentences ai =
     (let copy_knowledge = knowledge ai
      in fst (fold (\<lambda>sentence st. fold (\<lambda>sentence1 st1. infer_pair ai sentence sentence1 st1)
                                        copy_knowledge st)
                   copy_knowledge ([], - 1)))"

definition subset_inference :: "MinesweeperAI \<Rightarrow> MinesweeperAI" where
  "subset_inference ai = ai\<lparr>knowledge := knowledge ai @ infer_sub_sentences ai\<rparr>"

definition add_knowledge :: "MinesweeperAI \<Rightarrow> cell \<Rightarrow> int \<Rightarrow> error + MinesweeperAI" where
  "add_knowledge ai cell n =
     (let ai1 = ai\<lparr>moves_made := finsert cell (moves_made ai)\<rparr>;
          ai2 = mark_safe cell ai1;
          ai3 = add_new_sentence cell n ai2
      in case mark_and_clean ai3 of
           Inl e \<Rightarrow> Inl e
         | Inr ai4 \<Rightarrow>
             (case mark_and_clean (subset_inference ai4) of
                Inl e \<Rightarrow> Inl e
              | Inr ai5 \<Rightarrow> clean_exceuted_safes ai5))"

text \<open>A sequence of \<open>add_knowledge\<close> calls; an exception ends it.\<close>

fun add_knowledge_all :: "MinesweeperAI \<Rightarrow> (cell \<times> int) list \<Rightarrow> error + MinesweeperAI" where
  "add_knowledge_all ai [] = Inr ai"
| "add_knowledge_all ai ((cell, n) # calls) =
     (case add_knowledge ai cell n of
        Inl e \<Rightarrow> Inl e
      | Inr ai' \<Rightarrow> add_knowledge_all ai' calls)"

subsection \<open>Move selection\<close>

text \<open>\<open>make_safe_move\<close>: \<open>order\<close> is the order in which Python iterates \<open>self.safes\<close>.\<close>

fun make_safe_move :: "cell list \<Rightarrow> MinesweeperAI \<Rightarrow> cell option" where
  "make_safe_move [] ai = None"
| "make_safe_move (cell # order) ai =
     (if cell |\<notin>| moves_made ai \<and> cell |\<notin>| mines ai then Some cell
      else make_safe_move order ai)"

text \<open>\<open>make_random_move\<close>: \<open>r\<close> is the random source of the one draw for the rows,
  \<open>cs row\<close> that of the draw made for the columns at the start of round \<open>row\<close>.\<close>

fun random_cols :: "MinesweeperAI \<Rightarrow> int \<Rightarrow> int list \<Rightarrow> cell option" where
  "random_cols ai row [] = None"
| "random_cols ai row (col # cols) =
     (if (row, col) |\<notin>| mines ai \<and> (row, col) |\<notin>| moves_made ai then Some (row, col)
      else random_cols ai row cols)"

fun random_rows :: "MinesweeperAI \<Rightarrow> (int \<Rightarrow> int) \<Rightarrow> int list \<Rightarrow> error + cell option" where
  "random_rows ai cs [] = Inr None"
| "random_rows ai cs (row # rows) =
     (case randrange (width ai) (cs row) of
        Inl e \<Rightarrow> Inl e
      | Inr c \<Rightarrow>
          (case random_cols ai row (py_range 0 c) of
             Some move \<Rightarrow> Inr (Some move)
           | None \<Rightarrow> random_rows ai cs rows))"

definition make_random_move :: "MinesweeperAI \<Rightarrow> int \<Rightarrow> (int \<Rightarrow> int) \<Rightarrow> error + cell option" where
  "make_random_move ai r cs =
     (case randrange (height ai) r of
        Inl e \<Rightarrow> Inl e
      | Inr rmax \<Rightarrow> random_rows ai cs (py_range 0 rmax))"

section \<open>Invariants and reference definitions\<close>

text \<open>The definitions of this section are not taken from the source; they state the
  properties proved below.\<close>

text \<open>No cell is recorded both as a mine and as safe, and no sentence mentions a cell
  recorded as a mine or as safe.\<close>

definition consistent :: "MinesweeperAI \<Rightarrow> bool" where
  "consistent ai \<longleftrightarrow>
     mines ai |\<inter>| safes ai = {||} \<and>
     (\<forall>s \<in> set (knowledge ai). cells s |\<inter>| (mines ai |\<union>| safes ai) = {||})"

text \<open>\<open>extends ai ai'\<close>: the grid and the moves are the same, and the recorded mines and
  safes have only grown.\<close>

definition extends :: "MinesweeperAI \<Rightarrow> MinesweeperAI \<Rightarrow> bool" where
  "extends ai ai' \<longleftrightarrow>
     height ai' = height ai \<and> width ai' = width ai \<and> moves_made ai' = moves_made ai \<and>
     mines ai |\<subseteq>| mines ai' \<and> safes ai |\<subseteq>| safes ai'"

text \<open>The cells of the board that hold a mine.\<close>

definition mine_layout :: "Minesweeper \<Rightarrow> cell fset" where
  "mine_layout g =
     fset_of_list (filter (\<lambda>c. board_at g (fst c) (snd c) = Inr True)
       (List.product (py_range 0 (board_height g)) (py_range 0 (board_width g))))"

text \<open>A sentence is true of a mine layout \<open>M\<close> when its count is the number of its cells
  in \<open>M\<close>; an engine is sound for \<open>M\<close> when its recorded mines are in \<open>M\<close>, its
  recorded safes and its moves are not, and all its sentences are true of \<open>M\<close>.\<close>

definition true_of :: "cell fset \<Rightarrow> Sentence \<Rightarrow> bool" where
  "true_of M s \<longleftrightarrow> count s = int (fcard (cells s |\<inter>| M))"

definition sound :: "cell fset \<Rightarrow> MinesweeperAI \<Rightarrow> bool" where
  "sound M ai \<longleftrightarrow>
     mines ai |\<subseteq>| M \<and> safes ai |\<inter>| M = {||} \<and> moves_made ai |\<inter>| M = {||} \<and>
     (\<forall>s \<in> set (knowledge ai). true_of M s)"

text \<open>The sentence that the subset inference derives from the pair \<open>(A, B)\<close>, and the
  condition under which it is queued.\<close>

definition derived_candidate :: "MinesweeperAI \<Rightarrow> Sentence \<Rightarrow> Sentence \<Rightarrow> Sentence" where
  "derived_candidate ai A B =
     Sentence_init
       (ffilter (\<lambda>c. c |\<notin>| moves_made ai \<and> c |\<notin>| safes ai \<and> c |\<notin>| mines ai)
                (cells B |-| cells A))
       \<bar>count B - count A\<bar>"

definition queued :: "MinesweeperAI \<Rightarrow> Sentence \<Rightarrow> Sentence \<Rightarrow> bool" where
  "queued ai A B \<longleftrightarrow>
     cells A |\<subseteq>| cells B \<and> cells (derived_candidate ai A B) \<noteq> {||} \<and>
     derived_candidate ai A B \<notin> set (knowledge ai)"

section \<open>Sentence: marking a cell\<close>

lemma mark_mine_loop_eq:
  "mark_mine_loop xs cell s =
     (if cell \<in> set xs then s\<lparr>cells := cells s |-| {|cell|}, count := count s - 1\<rparr> else s)"
  by (induction xs) auto

lemma Sentence_mark_mine_eq:
  "Sentence_mark_mine cell s =
     (if cell |\<in>| cells s then s\<lparr>cells := cells s |-| {|cell|}, count := count s - 1\<rparr> else s)"
  by (simp add: Sentence_mark_mine_def mark_mine_loop_eq)

text \<open>The loop of \<open>Sentence.mark_mine\<close> gives the same sentence for every enumeration of
  the copied set.\<close>

lemma mark_mine_loop_any_order:
  "fset_of_list xs = cells s \<Longrightarrow> mark_mine_loop xs cell s = Sentence_mark_mine cell s"
  by (auto simp add: Sentence_mark_mine_eq mark_mine_loop_eq fset_of_list_elem [symmetric])

text \<open>
  Claim C9.  For every sentence \<open>s\<close> and every cell \<open>c\<close>, \<open>s.mark_mine(c)\<close> called twice in a
  row leaves the sentence (cells and count) as one call does, and so does
  \<open>s.mark_safe(c)\<close>.
\<close>

theorem mark_twice_same_as_once:
  "Sentence_mark_mine c (Sentence_mark_mine c s) = Sentence_mark_mine c s \<and>
   Sentence_mark_safe c (Sentence_mark_safe c s) = Sentence_mark_safe c s"
  by (simp add: Sentence_mark_mine_eq Sentence_mark_safe_def)

theorem mark_twice_same_as_once_witness:
  "Sentence_mark_mine (0, 1) (Sentence_mark_mine (0, 1) \<lparr>cells = {|(0, 0), (0, 1)|}, count = 1\<rparr>)
     = \<lparr>cells = {|(0, 0)|}, count = 0\<rparr>"
  using mark_twice_same_as_once [of "(0, 1)" "\<lparr>cells = {|(0, 0), (0, 1)|}, count = 1\<rparr>"]
  by (auto simp add: Sentence_mark_mine_eq)

section \<open>Move selection\<close>

lemma make_safe_move_Some:
  "make_safe_move order ai = Some c \<Longrightarrow>
     c \<in> set order \<and> c |\<notin>| moves_made ai \<and> c |\<notin>| mines ai"
  by (induction order) (auto split: if_splits)

lemma make_safe_move_None:
  "make_safe_move order ai = None \<longleftrightarrow>
     (\<forall>c \<in> set order. c |\<in>| moves_made ai \<or> c |\<in>| mines ai)"
  by (induction order) auto

text \<open>
  Claim C8.  Whatever the order in which the set \<open>self.safes\<close> is iterated,
  \<open>make_safe_move\<close> returns only a cell that is in \<open>safes\<close>, not in \<open>moves_made\<close> and not in
  \<open>mines\<close>; it returns \<open>None\<close> exactly when there is no such cell, and a cell whenever
  there is one.
\<close>

theorem make_safe_move_correct:
  assumes "fset_of_list order = safes ai"
  shows "(\<forall>c. make_safe_move order ai = Some c \<longrightarrow>
              c |\<in>| safes ai \<and> c |\<notin>| moves_made ai \<and> c |\<notin>| mines ai) \<and>
         (make_safe_move order ai = None \<longleftrightarrow>
              \<not> (\<exists>c. c |\<in>| safes ai \<and> c |\<notin>| moves_made ai \<and> c |\<notin>| mines ai)) \<and>
         ((\<exists>c. c |\<in>| safes ai \<and> c |\<notin>| moves_made ai \<and> c |\<notin>| mines ai) \<longrightarrow>
              (\<exists>c. make_safe_move order ai = Some c))"
proof -
  have mem: "\<And>c. c \<in> set order \<longleftrightarrow> c |\<in>| safes ai"
    using assms by (metis fset_of_list_elem)
  have some: "\<forall>c. make_safe_move order ai = Some c \<longrightarrow>
              c |\<in>| safes ai \<and> c |\<notin>| moves_made ai \<and> c |\<notin>| mines ai"
    using make_safe_move_Some mem by blast
  have none: "make_safe_move order ai = None \<longleftrightarrow>
              \<not> (\<exists>c. c |\<in>| safes ai \<and> c |\<notin>| moves_made ai \<and> c |\<notin>| mines ai)"
    unfolding make_safe_move_None using mem by blast
  from none have "(\<exists>c. c |\<in>| safes ai \<and> c |\<notin>| moves_made ai \<and> c |\<notin>| mines ai) \<longrightarrow>
              (\<exists>c. make_safe_move order ai = Some c)"
    by (cases "make_safe_move order ai") auto
  with some none show ?thesis by blast
qed

theorem make_safe_move_correct_witness:
  "make_safe_move [(0, 1), (0, 2)]
     (MinesweeperAI_init 1 3\<lparr>moves_made := {|(0, 1)|}, safes := {|(0, 1), (0, 2)|}\<rparr>)
     = Some (0, 2) \<and>
   (0, 2) |\<in>| safes (MinesweeperAI_init 1 3\<lparr>moves_made := {|(0, 1)|}, safes := {|(0, 1), (0, 2)|}\<rparr>)"
  using make_safe_move_correct [of "[(0, 1), (0, 2)]"
      "MinesweeperAI_init 1 3\<lparr>moves_made := {|(0, 1)|}, safes := {|(0, 1), (0, 2)|}\<rparr>"]
  by (simp add: MinesweeperAI_init_def)

lemma random_cols_Some:
  "random_cols ai row cols = Some (i, j) \<Longrightarrow> i = row \<and> j \<in> set cols"
  by (induction cols) (auto split: if_splits)

lemma random_rows_bounds:
  assumes "1 \<le> width ai"
  shows "\<exists>res. random_rows ai cs rows = Inr res \<and>
           (\<forall>i j. res = Some (i, j) \<longrightarrow> i \<in> set rows \<and> 0 \<le> j \<and> j \<le> width ai - 2)"
proof (induction rows)
  case Nil
  show ?case by simp
next
  case (Cons row rows)
  have c: "0 \<le> cs row mod width ai" "cs row mod width ai < width ai"
    using assms by simp_all
  show ?case
  proof (cases "random_cols ai row (py_range 0 (cs row mod width ai))")
    case None
    with Cons assms show ?thesis by (auto simp add: randrange_def)
  next
    case (Some move)
    obtain i j where ij: "move = (i, j)" by (cases move)
    with Some have "i = row \<and> j \<in> set (py_range 0 (cs row mod width ai))"
      using random_cols_Some by blast
    then have "i = row \<and> 0 \<le> j \<and> j \<le> width ai - 2"
      using c by (auto simp add: py_range_def)
    with Some ij assms show ?thesis by (auto simp add: randrange_def)
  qed
qed

text \<open>
  Claim C10.  On a grid of height and width at least 1, \<open>make_random_move\<close> returns
  (no exception), and a returned cell \<open>(i, j)\<close> has \<open>i \<le> height - 2\<close> and
  \<open>j \<le> width - 2\<close>: no cell of the last row or of the last column is ever returned,
  whatever the random draws.
\<close>

theorem make_random_move_skips_last_row_and_column:
  assumes "1 \<le> height ai" and "1 \<le> width ai"
  shows "\<exists>res. make_random_move ai r cs = Inr res \<and>
           (\<forall>i j. res = Some (i, j) \<longrightarrow>
              0 \<le> i \<and> i \<le> height ai - 2 \<and> 0 \<le> j \<and> j \<le> width ai - 2)"
proof -
  have r: "0 \<le> r mod height ai" "r mod height ai < height ai"
    using assms(1) by simp_all
  obtain res where res: "random_rows ai cs (py_range 0 (r mod height ai)) = Inr res"
    and b: "\<forall>i j. res = Some (i, j) \<longrightarrow>
              i \<in> set (py_range 0 (r mod height ai)) \<and> 0 \<le> j \<and> j \<le> width ai - 2"
    using random_rows_bounds [OF assms(2)] by blast
  from b r have "\<forall>i j. res = Some (i, j) \<longrightarrow>
              0 \<le> i \<and> i \<le> height ai - 2 \<and> 0 \<le> j \<and> j \<le> width ai - 2"
    by (auto simp add: py_range_def)
  with res assms(1) show ?thesis
    by (simp add: make_random_move_def randrange_def)
qed

theorem make_random_move_skips_last_row_and_column_witness:
  "1 \<le> height (MinesweeperAI_init 3 3) \<and> 1 \<le> width (MinesweeperAI_init 3 3) \<and>
   make_random_move (MinesweeperAI_init 3 3) 2 (\<lambda>row. 2) = Inr (Some (0, 0)) \<and>
   (0::int) \<le> height (MinesweeperAI_init 3 3) - 2 \<and>
   (0::int) \<le> width (MinesweeperAI_init 3 3) - 2"
proof -
  have h: "1 \<le> height (MinesweeperAI_init 3 3)" and w: "1 \<le> width (MinesweeperAI_init 3 3)"
    by (simp_all add: MinesweeperAI_init_def)
  have run: "make_random_move (MinesweeperAI_init 3 3) 2 (\<lambda>row. 2) = Inr (Some (0, 0))"
    by code_simp
  from make_random_move_skips_last_row_and_column [OF h w, of 2 "\<lambda>row. 2"] run h w
  show ?thesis by auto
qed

text \<open>
  Claim C4.  The claim is that \<open>make_random_move\<close> returns a cell whenever some cell of
  the grid is neither a known mine nor a move made.  On a fresh 1 x 1 engine the cell
  \<open>(0, 0)\<close> is free, and the function returns \<open>None\<close> for every random draw:
  \<open>randrange(1)\<close> is 0 and \<open>range(0)\<close> is empty.
\<close>

theorem make_random_move_none_on_free_board:
  "make_random_move (MinesweeperAI_init 1 1) r cs = Inr None \<and>
   (0, 0) |\<notin>| mines (MinesweeperAI_init 1 1) \<and>
   (0, 0) |\<notin>| moves_made (MinesweeperAI_init 1 1)"
  by (simp add: make_random_move_def randrange_def MinesweeperAI_init_def py_range_def)

section \<open>The loops over sets do not depend on the iteration order\<close>

lemma fold_Sentence_mark_mine:
  "distinct cs \<Longrightarrow>
   fold Sentence_mark_mine cs s =
     \<lparr>cells = cells s |-| fset_of_list cs,
      count = count s - int (fcard (cells s |\<inter>| fset_of_list cs))\<rparr>"
proof (induction cs arbitrary: s)
  case Nil
  show ?case by simp
next
  case (Cons c cs)
  then have c: "c |\<notin>| fset_of_list cs" and d: "distinct cs"
    by (simp_all add: fset_of_list_elem)
  show ?case
  proof (cases "c |\<in>| cells s")
    case True
    have 1: "(cells s |-| {|c|}) |\<inter>| fset_of_list cs = cells s |\<inter>| fset_of_list cs"
      using c by auto
    have 2: "cells s |\<inter>| finsert c (fset_of_list cs) = finsert c (cells s |\<inter>| fset_of_list cs)"
      using True by auto
    have 3: "c |\<notin>| cells s |\<inter>| fset_of_list cs"
      using c by simp
    have 4: "cells s |-| {|c|} |-| fset_of_list cs = cells s |-| finsert c (fset_of_list cs)"
      by auto
    show ?thesis
      using True Cons.IH [OF d, of "Sentence_mark_mine c s"] 3
      by (simp add: Sentence_mark_mine_eq 1 2 4 fcard_finsert_disjoint)
  next
    case False
    have 2: "cells s |\<inter>| finsert c (fset_of_list cs) = cells s |\<inter>| fset_of_list cs"
      using False by auto
    have 4: "cells s |-| fset_of_list cs = cells s |-| finsert c (fset_of_list cs)"
      using False by auto
    show ?thesis
      using False Cons.IH [OF d, of s]
      by (simp add: Sentence_mark_mine_eq 2 4 [symmetric])
  qed
qed

lemma mark_found_mines_eq:
  "mark_found_mines cs ai =
     ai\<lparr>mines := mines ai |\<union>| fset_of_list cs,
        knowledge := map (fold Sentence_mark_mine cs) (knowledge ai)\<rparr>"
proof (induction cs arbitrary: ai)
  case Nil
  show ?case by (simp add: mark_found_mines_def)
next
  case (Cons c cs)
  have "mark_found_mines (c # cs) ai =
          mark_found_mines cs ((mark_mine c ai)\<lparr>mines := finsert c (mines ai)\<rparr>)"
    by (simp add: mark_found_mines_def)
  then show ?case
    by (simp add: Cons.IH mark_mine_def comp_def)
qed

lemma mark_found_safes_eq:
  "mark_found_safes cs ai =
     ai\<lparr>safes := safes ai |\<union>| (fset_of_list cs |-| moves_made ai),
        knowledge := map (\<lambda>s. s\<lparr>cells := cells s |-| (fset_of_list cs |-| moves_made ai)\<rparr>)
                         (knowledge ai)\<rparr>"
proof (induction cs arbitrary: ai)
  case Nil
  show ?case by (simp add: mark_found_safes_def)
next
  case (Cons c cs)
  show ?case
  proof (cases "c |\<in>| moves_made ai")
    case True
    then have "mark_found_safes (c # cs) ai = mark_found_safes cs ai"
      by (simp add: mark_found_safes_def)
    moreover have "finsert c (fset_of_list cs) |-| moves_made ai = fset_of_list cs |-| moves_made ai"
      using True by auto
    ultimately show ?thesis by (simp add: Cons.IH)
  next
    case False
    then have "mark_found_safes (c # cs) ai =
          mark_found_safes cs ((mark_safe c ai)\<lparr>safes := finsert c (safes ai)\<rparr>)"
      by (simp add: mark_found_safes_def)
    moreover have "finsert c (fset_of_list cs) |-| moves_made ai
          = finsert c (fset_of_list cs |-| moves_made ai)"
      using False by auto
    moreover have "\<And>X Y. X |-| {|c|} |-| Y = X |-| finsert c Y"
      by auto
    ultimately show ?thesis
      by (simp add: Cons.IH mark_safe_def comp_def Sentence_mark_safe_def)
  qed
qed


lemma mark_found_mines_any_order:
  "distinct xs \<Longrightarrow> distinct ys \<Longrightarrow> set xs = set ys \<Longrightarrow>
   mark_found_mines xs ai = mark_found_mines ys ai"
proof -
  assume d: "distinct xs" "distinct ys" and e: "set xs = set ys"
  from e have f: "fset_of_list xs = fset_of_list ys"
    by (auto simp add: fset_of_list_elem)
  have "fold Sentence_mark_mine xs = fold Sentence_mark_mine ys"
    by (rule ext) (simp add: fold_Sentence_mark_mine d f)
  then show ?thesis by (simp add: mark_found_mines_eq f)
qed

lemma mark_found_safes_any_order:
  "set xs = set ys \<Longrightarrow> mark_found_safes xs ai = mark_found_safes ys ai"
proof -
  assume "set xs = set ys"
  then have "fset_of_list xs = fset_of_list ys"
    by (auto simp add: fset_of_list_elem)
  then show ?thesis by (simp add: mark_found_safes_eq)
qed

lemma filter_known_eq:
  "filter_known ai xs s =
     s |-| ffilter (\<lambda>c. c |\<in>| moves_made ai \<or> c |\<in>| safes ai \<or> c |\<in>| mines ai)
             (fset_of_list xs)"
proof (induction xs arbitrary: s)
  case Nil
  have "s |-| ffilter (\<lambda>c. c |\<in>| moves_made ai \<or> c |\<in>| safes ai \<or> c |\<in>| mines ai) {||} = s"
    by (rule fset_eqI) simp
  then show ?case by (simp add: filter_known_def)
next
  case (Cons x xs)
  let ?P = "\<lambda>c. c |\<in>| moves_made ai \<or> c |\<in>| safes ai \<or> c |\<in>| mines ai"
  have step: "filter_known ai (x # xs) s =
          filter_known ai xs (if ?P x then s |-| {|x|} else s)"
    by (simp add: filter_known_def)
  have "(if ?P x then s |-| {|x|} else s) |-| ffilter ?P (fset_of_list xs)
          = s |-| ffilter ?P (fset_of_list (x # xs))"
    by (rule fset_eqI) auto
  with step Cons.IH show ?case by simp
qed

lemma filter_known_sorted:
  "filter_known ai (sorted_list_of_fset s) s =
     ffilter (\<lambda>c. c |\<notin>| moves_made ai \<and> c |\<notin>| safes ai \<and> c |\<notin>| mines ai) s"
  unfolding filter_known_eq by (rule fset_eqI) auto

lemma filter_known_any_order:
  "fset_of_list xs = s \<Longrightarrow>
   filter_known ai xs s = filter_known ai (sorted_list_of_fset s) s"
  by (simp add: filter_known_eq)

lemma clean_exceuted_loop_eq:
  "distinct xs \<Longrightarrow> fset_of_list xs |\<subseteq>| sf \<Longrightarrow>
   clean_exceuted_loop xs moves sf = Inr (sf |-| (fset_of_list xs |\<inter>| moves))"
proof (induction xs arbitrary: sf)
  case Nil
  show ?case by simp
next
  case (Cons x xs)
  then have x: "x |\<in>| sf" "x |\<notin>| fset_of_list xs" and d: "distinct xs"
    and sub: "fset_of_list xs |\<subseteq>| sf"
    by (simp_all add: fset_of_list_elem)
  show ?case
  proof (cases "x |\<in>| moves")
    case True
    have "fset_of_list xs |\<subseteq>| sf |-| {|x|}"
      using sub x by auto
    from Cons.IH [OF d this] True x show ?thesis
      by (auto simp add: set_remove_def)
  next
    case False
    have "finsert x (fset_of_list xs) |\<inter>| moves = fset_of_list xs |\<inter>| moves"
      using False by auto
    with Cons.IH [OF d sub] False show ?thesis by simp
  qed
qed

lemma clean_exceuted_loop_any_order:
  "distinct xs \<Longrightarrow> fset_of_list xs = sf \<Longrightarrow>
   clean_exceuted_loop xs moves sf = Inr (sf |-| moves)"
proof -
  assume d: "distinct xs" and e: "fset_of_list xs = sf"
  then have "clean_exceuted_loop xs moves sf = Inr (sf |-| (fset_of_list xs |\<inter>| moves))"
    by (simp add: clean_exceuted_loop_eq)
  also have "sf |-| (fset_of_list xs |\<inter>| moves) = sf |-| moves"
    using e by auto
  finally show ?thesis .
qed

lemma distinct_sorted_list_of_fset:
  "distinct (sorted_list_of_fset S)"
  by (simp add: sorted_list_of_fset.rep_eq)

lemma clean_exceuted_safes_eq:
  "clean_exceuted_safes ai = Inr (ai\<lparr>safes := safes ai |-| moves_made ai\<rparr>)"
  by (simp add: clean_exceuted_safes_def clean_exceuted_loop_any_order
        distinct_sorted_list_of_fset)

lemma filter_remove1_first:
  "filter P kb = s # r \<Longrightarrow>
     s \<in> set kb \<and> filter P (remove1 s kb) = r \<and>
     filter (\<lambda>x. \<not> P x) (remove1 s kb) = filter (\<lambda>x. \<not> P x) kb"
proof (induction kb)
  case Nil
  then show ?case by simp
next
  case (Cons k kb)
  show ?case
  proof (cases "P k")
    case True
    with Cons.prems show ?thesis by auto
  next
    case False
    with Cons.prems have "filter P kb = s # r" by simp
    moreover from this have "P s" by (metis filter_eq_ConsD)
    ultimately show ?thesis using Cons.IH False by auto
  qed
qed

lemma clean_empty_loop_eq:
  "filter (\<lambda>s. cells s = {||}) clone = filter (\<lambda>s. cells s = {||}) kb \<Longrightarrow>
   clean_empty_loop clone kb = Inr (filter (\<lambda>s. cells s \<noteq> {||}) kb)"
proof (induction clone arbitrary: kb)
  case Nil
  then have "filter (\<lambda>s. cells s = {||}) kb = []" by simp
  then have "filter (\<lambda>s. cells s \<noteq> {||}) kb = kb"
    by (simp add: filter_empty_conv)
  then show ?case by simp
next
  case (Cons s clone)
  show ?case
  proof (cases "cells s = {||}")
    case True
    with Cons.prems have f: "filter (\<lambda>s. cells s = {||}) kb = s # filter (\<lambda>s. cells s = {||}) clone"
      by simp
    note r = filter_remove1_first [OF f]
    from r have "clean_empty_loop clone (remove1 s kb)
        = Inr (filter (\<lambda>s. cells s \<noteq> {||}) (remove1 s kb))"
      by (intro Cons.IH) simp
    with r True show ?thesis by (simp add: list_remove_def)
  next
    case False
    with Cons show ?thesis by simp
  qed
qed

lemma clean_empty_sentences_eq:
  "clean_empty_sentences ai =
     Inr (ai\<lparr>knowledge := filter (\<lambda>s. cells s \<noteq> {||}) (knowledge ai)\<rparr>)"
  by (simp add: clean_empty_sentences_def clean_empty_loop_eq)

lemma set_clean_identical_inner:
  "set (fold (\<lambda>other k. if sentence = other
                         then (case list_remove sentence k of Inl e \<Rightarrow> k | Inr k' \<Rightarrow> k')
                         else k) rest kb) \<subseteq> set kb"
proof (induction rest arbitrary: kb)
  case Nil
  show ?case by simp
next
  case (Cons r rest)
  have "set (remove1 sentence kb) \<subseteq> set kb"
    by (rule set_remove1_subset)
  with Cons.IH [of kb] Cons.IH [of "remove1 sentence kb"] show ?case
    by (auto simp add: list_remove_def)
qed

lemma set_clean_identical_loop:
  "set (clean_identical_loop clone kb) \<subseteq> set kb"
proof (induction clone arbitrary: kb)
  case Nil
  show ?case by simp
next
  case (Cons s clone)
  show ?case
    using Cons.IH set_clean_identical_inner [of s clone kb]
    by (simp del: fold_simps) blast
qed


section \<open>Marking, cleaning and the frame of each step\<close>

lemma no_common_cell:
  fixes mined safe :: "cell fset"
  shows "(mined |\<inter>| safe = {||}) = (\<forall>c. c |\<in>| mined \<longrightarrow> c |\<notin>| safe)"
  by auto

lemma consistent_iff:
  "consistent ai \<longleftrightarrow>
     (\<forall>c. c |\<in>| mines ai \<longrightarrow> c |\<notin>| safes ai) \<and>
     (\<forall>s \<in> set (knowledge ai). \<forall>c. c |\<in>| cells s \<longrightarrow> c |\<notin>| mines ai \<and> c |\<notin>| safes ai)"
  unfolding consistent_def no_common_cell by auto

lemma extends_refl: "extends ai ai"
  by (simp add: extends_def)

lemma extends_trans: "extends a b \<Longrightarrow> extends b c \<Longrightarrow> extends a c"
  by (auto simp add: extends_def)

lemma cells_fold_Sentence_mark_mine:
  "distinct cs \<Longrightarrow> cells (fold Sentence_mark_mine cs s) = cells s |-| fset_of_list cs"
  by (simp add: fold_Sentence_mark_mine)

lemma mark_sentence_cases:
  "mark_sentence s ai =
     (if cells s \<noteq> {||} \<and> int (fcard (cells s)) = count s
      then mark_found_mines (sorted_list_of_fset (cells s)) ai
      else if cells s \<noteq> {||} \<and> count s = 0
      then mark_found_safes (sorted_list_of_fset (cells s)) ai
      else ai)"
  by (auto simp add: mark_sentence_def known_mines_def known_safes_def Let_def)

lemma mark_sentence_extends:
  "extends ai (mark_sentence s ai) \<and>
   length (knowledge (mark_sentence s ai)) = length (knowledge ai)"
  by (simp add: mark_sentence_cases mark_found_mines_eq mark_found_safes_eq extends_def)

lemma mark_sentence_consistent:
  assumes "consistent ai" and "cells s |\<inter>| (mines ai |\<union>| safes ai) = {||}"
  shows "consistent (mark_sentence s ai)"
proof -
  from assms(2) have s: "\<And>c. c |\<in>| cells s \<Longrightarrow> c |\<notin>| mines ai \<and> c |\<notin>| safes ai"
    by auto
  note d = distinct_sorted_list_of_fset [of "cells s"]
  have m: "consistent (mark_found_mines (sorted_list_of_fset (cells s)) ai)"
    using assms(1) s
    by (auto simp add: consistent_iff mark_found_mines_eq cells_fold_Sentence_mark_mine [OF d])
  have f: "consistent (mark_found_safes (sorted_list_of_fset (cells s)) ai)"
    using assms(1) s
    by (auto simp add: consistent_iff mark_found_safes_eq)
  from m f assms(1) show ?thesis
    by (simp add: mark_sentence_cases)
qed


lemma fold_invariant:
  "(\<And>x a. x \<in> set xs \<Longrightarrow> P a \<Longrightarrow> P (f x a)) \<Longrightarrow> P a \<Longrightarrow> P (fold f xs a)"
  by (induction xs arbitrary: a) auto

lemma mark_mines_safes_extends:
  "extends ai (mark_mines_safes ai) \<and>
   length (knowledge (mark_mines_safes ai)) = length (knowledge ai)"
  unfolding mark_mines_safes_def
proof (rule fold_invariant [where P = "\<lambda>a. extends ai a \<and> length (knowledge a) = length (knowledge ai)"])
  show "extends ai ai \<and> length (knowledge ai) = length (knowledge ai)"
    by (simp add: extends_refl)
next
  fix k a
  assume "extends ai a \<and> length (knowledge a) = length (knowledge ai)"
  then show "extends ai (mark_sentence (knowledge a ! k) a) \<and>
             length (knowledge (mark_sentence (knowledge a ! k) a)) = length (knowledge ai)"
    using mark_sentence_extends [of a "knowledge a ! k"] extends_trans by auto
qed

lemma mark_mines_safes_consistent:
  assumes "consistent ai"
  shows "consistent (mark_mines_safes ai)"
proof -
  let ?P = "\<lambda>a. consistent a \<and> length (knowledge a) = length (knowledge ai)"
  have "?P (mark_mines_safes ai)"
    unfolding mark_mines_safes_def
  proof (rule fold_invariant [where P = ?P])
    show "?P ai" using assms by simp
  next
    fix k a
    assume k: "k \<in> set [0..<length (knowledge ai)]" and a: "?P a"
    then have "knowledge a ! k \<in> set (knowledge a)" by simp
    with a have "cells (knowledge a ! k) |\<inter>| (mines a |\<union>| safes a) = {||}"
      by (simp add: consistent_def)
    with a show "?P (mark_sentence (knowledge a ! k) a)"
      by (simp add: mark_sentence_consistent mark_sentence_extends)
  qed
  then show ?thesis by simp
qed


lemma new_sentence_loop_eq:
  "new_sentence_loop ai ns (cs, n) =
     (cs @ filter (\<lambda>c. c |\<notin>| mines ai \<and> c |\<notin>| safes ai \<and> c |\<notin>| moves_made ai) ns,
      n - int (length (filter (\<lambda>c. c |\<in>| mines ai) ns)))"
  by (induction ns arbitrary: cs n) auto

lemma add_new_sentence_extends:
  "extends ai (add_new_sentence cell n ai)"
  by (simp add: add_new_sentence_def new_sentence_loop_eq extends_def Let_def)

lemma add_new_sentence_cases:
  "add_new_sentence cell n ai = ai \<or>
   add_new_sentence cell n ai =
      ai\<lparr>knowledge := knowledge ai @
        [Sentence_init (fset_of_list (filter (\<lambda>c. c |\<notin>| mines ai \<and> c |\<notin>| safes ai \<and>
                                               c |\<notin>| moves_made ai) (neighbors ai cell)))
           (n - int (length (filter (\<lambda>c. c |\<in>| mines ai) (neighbors ai cell))))]\<rparr>"
  by (simp add: add_new_sentence_def new_sentence_loop_eq Let_def)

lemma add_new_sentence_consistent:
  assumes "consistent ai"
  shows "consistent (add_new_sentence cell n ai)"
proof -
  let ?cs = "filter (\<lambda>c. c |\<notin>| mines ai \<and> c |\<notin>| safes ai \<and> c |\<notin>| moves_made ai)
               (neighbors ai cell)"
  have "consistent (ai\<lparr>knowledge := knowledge ai @ [Sentence_init (fset_of_list ?cs) n']\<rparr>)"
    for n'
    using assms by (simp add: consistent_iff Sentence_init_def fset_of_list_elem)
  with assms add_new_sentence_cases [of cell n ai] show ?thesis
    by auto
qed

lemma mark_and_clean_eq:
  "mark_and_clean ai =
     Inr (clean_identical_sentences
            ((mark_mines_safes ai)\<lparr>knowledge :=
               filter (\<lambda>s. cells s \<noteq> {||}) (knowledge (mark_mines_safes ai))\<rparr>))"
  by (simp add: mark_and_clean_def clean_empty_sentences_eq)

lemma mark_and_clean_props:
  "\<exists>ai'. mark_and_clean ai = Inr ai' \<and> extends ai ai' \<and>
         set (knowledge ai') \<subseteq> set (knowledge (mark_mines_safes ai)) \<and>
         mines ai' = mines (mark_mines_safes ai) \<and> safes ai' = safes (mark_mines_safes ai)"
proof -
  have "set (clean_identical_loop (filter (\<lambda>s. cells s \<noteq> {||}) (knowledge (mark_mines_safes ai)))
               (filter (\<lambda>s. cells s \<noteq> {||}) (knowledge (mark_mines_safes ai))))
        \<subseteq> set (knowledge (mark_mines_safes ai))"
    using set_clean_identical_loop by fastforce
  moreover have "extends ai (mark_mines_safes ai)"
    by (simp add: mark_mines_safes_extends)
  ultimately show ?thesis
    by (simp add: mark_and_clean_eq clean_identical_sentences_def extends_def)
qed

lemma mark_and_clean_consistent:
  assumes "consistent ai" and "mark_and_clean ai = Inr ai'"
  shows "consistent ai'"
proof -
  from mark_and_clean_props [of ai] assms(2)
  have "set (knowledge ai') \<subseteq> set (knowledge (mark_mines_safes ai))"
    and "mines ai' = mines (mark_mines_safes ai)" and "safes ai' = safes (mark_mines_safes ai)"
    by auto
  with mark_mines_safes_consistent [OF assms(1)] show ?thesis
    by (auto simp add: consistent_def)
qed


section \<open>Subset inference and add_knowledge\<close>

lemma ffilter_fempty: "ffilter P {||} = {||}"
  by (rule fset_eqI) simp

lemma fminus_fempty_iff: "A |-| B = {||} \<longleftrightarrow> A |\<subseteq>| B"
  by auto

lemma infer_pair_eq:
  "infer_pair ai A B st =
     (if cells A |\<subseteq>| cells B
      then (if queued ai A B then fst st @ [derived_candidate ai A B] else fst st,
            \<bar>count B - count A\<bar>)
      else st)"
proof (cases "cells A |\<subseteq>| cells B")
  case True
  then have "cells A |-| cells B = {||}" by (simp add: fminus_fempty_iff)
  moreover have "\<bar>count B - count A\<bar> \<noteq> - 1" by linarith
  ultimately show ?thesis
    using True
    by (cases st)
       (simp add: infer_pair_def filter_known_sorted derived_candidate_def queued_def Let_def
          Sentence_init_def)
next
  case False
  then have "cells A |-| cells B \<noteq> {||}" by (simp add: fminus_fempty_iff)
  with False show ?thesis
    by (cases st) (simp add: infer_pair_def filter_known_sorted ffilter_fempty)
qed

lemma fst_infer_pair:
  "fst (infer_pair ai A B st) = fst st @ (if queued ai A B then [derived_candidate ai A B] else [])"
  by (simp add: infer_pair_eq queued_def)

lemma fst_fold_infer_pair:
  "fst (fold (infer_pair ai A) ys st) =
     fst st @ concat (map (\<lambda>B. if queued ai A B then [derived_candidate ai A B] else []) ys)"
proof (induction ys arbitrary: st)
  case Nil
  show ?case by simp
next
  case (Cons B ys)
  show ?case
    by (simp add: Cons.IH fst_infer_pair)
qed

lemma fst_fold_fold_infer_pair:
  "fst (fold (\<lambda>A. fold (infer_pair ai A) kb) xs st) =
     fst st @ concat (map (\<lambda>A. concat (map (\<lambda>B. if queued ai A B
                                                  then [derived_candidate ai A B] else []) kb)) xs)"
proof (induction xs arbitrary: st)
  case Nil
  show ?case by simp
next
  case (Cons A xs)
  show ?case
    by (simp add: Cons.IH fst_fold_infer_pair)
qed

lemma infer_sub_sentences_eq:
  "infer_sub_sentences ai =
     concat (map (\<lambda>A. concat (map (\<lambda>B. if queued ai A B then [derived_candidate ai A B] else [])
                                   (knowledge ai)))
                 (knowledge ai))"
  by (simp add: infer_sub_sentences_def Let_def fst_fold_fold_infer_pair)

lemma infer_sub_sentences_mem:
  "s \<in> set (infer_sub_sentences ai) \<longleftrightarrow>
     (\<exists>A \<in> set (knowledge ai). \<exists>B \<in> set (knowledge ai).
        queued ai A B \<and> s = derived_candidate ai A B)"
  by (auto simp add: infer_sub_sentences_eq split: if_splits)

lemma subset_inference_extends: "extends ai (subset_inference ai)"
  by (simp add: subset_inference_def extends_def)

lemma subset_inference_consistent:
  assumes "consistent ai"
  shows "consistent (subset_inference ai)"
proof -
  have "\<And>s c. s \<in> set (infer_sub_sentences ai) \<Longrightarrow> c |\<in>| cells s \<Longrightarrow>
          c |\<notin>| mines ai \<and> c |\<notin>| safes ai"
    by (auto simp add: infer_sub_sentences_mem derived_candidate_def Sentence_init_def)
  with assms show ?thesis
    by (auto simp add: consistent_iff subset_inference_def)
qed

lemma mark_safe_extends: "extends ai (mark_safe cell ai)"
  by (simp add: mark_safe_def extends_def)

lemma mark_safe_consistent: "consistent ai \<Longrightarrow> consistent (mark_safe cell ai)"
  by (auto simp add: consistent_iff mark_safe_def Sentence_mark_safe_def)

lemma add_knowledge_steps:
  "\<exists>ai4 ai5.
     mark_and_clean (add_new_sentence cell n
        (mark_safe cell (ai\<lparr>moves_made := finsert cell (moves_made ai)\<rparr>))) = Inr ai4 \<and>
     mark_and_clean (subset_inference ai4) = Inr ai5 \<and>
     add_knowledge ai cell n = Inr (ai5\<lparr>safes := safes ai5 |-| moves_made ai5\<rparr>)"
  by (simp add: add_knowledge_def mark_and_clean_eq clean_exceuted_safes_eq Let_def)

lemma add_knowledge_frame:
  "\<exists>ai5. add_knowledge ai cell n = Inr (ai5\<lparr>safes := safes ai5 |-| moves_made ai5\<rparr>) \<and>
         extends (ai\<lparr>moves_made := finsert cell (moves_made ai)\<rparr>) ai5"
proof -
  let ?a1 = "ai\<lparr>moves_made := finsert cell (moves_made ai)\<rparr>"
  let ?a3 = "add_new_sentence cell n (mark_safe cell ?a1)"
  obtain ai4 ai5 where 4: "mark_and_clean ?a3 = Inr ai4"
    and 5: "mark_and_clean (subset_inference ai4) = Inr ai5"
    and r: "add_knowledge ai cell n = Inr (ai5\<lparr>safes := safes ai5 |-| moves_made ai5\<rparr>)"
    using add_knowledge_steps by blast
  have "extends ?a1 ?a3"
    using mark_safe_extends add_new_sentence_extends extends_trans by blast
  moreover have "extends ?a3 ai4"
    using mark_and_clean_props [of ?a3] 4 by auto
  moreover have "extends ai4 ai5"
    using mark_and_clean_props [of "subset_inference ai4"] 5
      subset_inference_extends [of ai4] extends_trans by auto
  ultimately have "extends ?a1 ai5"
    using extends_trans by blast
  with r show ?thesis by blast
qed

lemma add_knowledge_consistent:
  assumes "consistent ai" and "add_knowledge ai cell n = Inr ai'"
  shows "consistent ai'"
proof -
  let ?a1 = "ai\<lparr>moves_made := finsert cell (moves_made ai)\<rparr>"
  let ?a3 = "add_new_sentence cell n (mark_safe cell ?a1)"
  obtain ai4 ai5 where 4: "mark_and_clean ?a3 = Inr ai4"
    and 5: "mark_and_clean (subset_inference ai4) = Inr ai5"
    and r: "add_knowledge ai cell n = Inr (ai5\<lparr>safes := safes ai5 |-| moves_made ai5\<rparr>)"
    using add_knowledge_steps by blast
  from assms(1) have "consistent ?a1" by (simp add: consistent_def)
  then have "consistent ?a3"
    by (simp add: mark_safe_consistent add_new_sentence_consistent)
  then have "consistent ai4" using 4 by (rule mark_and_clean_consistent)
  then have "consistent (subset_inference ai4)" by (rule subset_inference_consistent)
  then have "consistent ai5" using 5 by (rule mark_and_clean_consistent)
  then have "consistent (ai5\<lparr>safes := safes ai5 |-| moves_made ai5\<rparr>)"
    by (auto simp add: consistent_iff)
  with r assms(2) show ?thesis by simp
qed

lemma add_knowledge_all_consistent:
  "consistent ai \<Longrightarrow>
   \<exists>ai'. add_knowledge_all ai calls = Inr ai' \<and> consistent ai'"
proof (induction calls arbitrary: ai)
  case Nil
  then show ?case by simp
next
  case (Cons call calls)
  obtain cell n where call: "call = (cell, n)" by (cases call)
  obtain ai1 where 1: "add_knowledge ai cell n = Inr ai1"
    using add_knowledge_frame by blast
  with Cons.prems have "consistent ai1" by (simp add: add_knowledge_consistent)
  from Cons.IH [OF this] 1 call show ?case by simp
qed

text \<open>
  Claim C1.  For a fresh engine of any height and width and every sequence of
  \<open>add_knowledge\<close> calls, with any cells and any integer counts, every call returns and
  afterwards no cell is both in \<open>safes\<close> and in \<open>mines\<close>.
\<close>

theorem safes_and_mines_disjoint:
  "\<exists>ai'. add_knowledge_all (MinesweeperAI_init h w) calls = Inr ai' \<and>
         safes ai' |\<inter>| mines ai' = {||}"
proof -
  have "consistent (MinesweeperAI_init h w)"
    by (simp add: consistent_def MinesweeperAI_init_def)
  from add_knowledge_all_consistent [OF this, of calls] show ?thesis
    by (auto simp add: consistent_def)
qed

theorem safes_and_mines_disjoint_witness:
  "add_knowledge_all (MinesweeperAI_init 1 4) [((0, 0), 0), ((0, 3), 1)] =
     Inr \<lparr>height = 1, width = 4, moves_made = {|(0, 0), (0, 3)|}, mines = {|(0, 2)|},
          safes = {|(0, 1)|}, knowledge = []\<rparr> \<and>
   {|(0::int, 1::int)|} |\<inter>| {|(0, 2)|} = {||}"
proof -
  have run: "add_knowledge_all (MinesweeperAI_init 1 4) [((0, 0), 0), ((0, 3), 1)] =
     Inr \<lparr>height = 1, width = 4, moves_made = {|(0, 0), (0, 3)|}, mines = {|(0, 2)|},
          safes = {|(0, 1)|}, knowledge = []\<rparr>"
    by code_simp
  from safes_and_mines_disjoint [of 1 4 "[((0, 0), 0), ((0, 3), 1)]"] run
  show ?thesis by simp
qed

text \<open>
  Claim C3.  The claim is that \<open>add_knowledge\<close> raises an error for a cell already in
  \<open>moves_made\<close> or for a count outside \<open>[0, number of neighbours]\<close>.  It does not: a cell
  that is already a move is accepted, and so is the count 5 for a cell with one
  neighbour.
\<close>

theorem add_knowledge_accepts_counterexample:
  "(0, 0) |\<in>| moves_made \<lparr>height = 1, width = 3, moves_made = {|(0, 0)|}, mines = {||},
                            safes = {|(0, 1)|}, knowledge = []\<rparr> \<and>
   add_knowledge \<lparr>height = 1, width = 3, moves_made = {|(0, 0)|}, mines = {||},
                  safes = {|(0, 1)|}, knowledge = []\<rparr> (0, 0) 0 =
     Inr \<lparr>height = 1, width = 3, moves_made = {|(0, 0)|}, mines = {||}, safes = {|(0, 1)|},
          knowledge = []\<rparr> \<and>
   length (neighbors (MinesweeperAI_init 1 2) (0, 0)) = 1 \<and>
   add_knowledge (MinesweeperAI_init 1 2) (0, 0) 5 =
     Inr \<lparr>height = 1, width = 2, moves_made = {|(0, 0)|}, mines = {||}, safes = {||},
          knowledge = [\<lparr>cells = {|(0, 1)|}, count = 5\<rparr>]\<rparr>"
  by code_simp

text \<open>
  Claim C3, as amended.  \<open>add_knowledge\<close> checks no precondition and raises no error:
  for every engine state, every cell and every integer count it returns, with the cell
  in \<open>moves_made\<close>.
\<close>

theorem add_knowledge_never_raises:
  "\<exists>ai'. add_knowledge ai cell n = Inr ai' \<and> cell |\<in>| moves_made ai'"
  using add_knowledge_frame [of ai cell n] by (auto simp add: extends_def)

theorem add_knowledge_never_raises_witness:
  "add_knowledge (MinesweeperAI_init 1 2) (0, 0) 5 =
     Inr \<lparr>height = 1, width = 2, moves_made = {|(0, 0)|}, mines = {||}, safes = {||},
          knowledge = [\<lparr>cells = {|(0, 1)|}, count = 5\<rparr>]\<rparr> \<and>
   (0, 0) |\<in>| {|(0::int, 0::int)|}"
proof -
  have run: "add_knowledge (MinesweeperAI_init 1 2) (0, 0) 5 =
     Inr \<lparr>height = 1, width = 2, moves_made = {|(0, 0)|}, mines = {||}, safes = {||},
          knowledge = [\<lparr>cells = {|(0, 1)|}, count = 5\<rparr>]\<rparr>"
    by code_simp
  from add_knowledge_never_raises [of "MinesweeperAI_init 1 2" "(0, 0)" 5] run
  show ?thesis by simp
qed

text \<open>
  Claim C6.  The claim is that after \<open>add_knowledge\<close> every move made is in \<open>safes\<close>.
  After the first call on a fresh 1 x 3 engine the move \<open>(0, 0)\<close> is not in \<open>safes\<close>.
\<close>

theorem moves_not_safes_counterexample:
  "add_knowledge (MinesweeperAI_init 1 3) (0, 0) 0 =
     Inr \<lparr>height = 1, width = 3, moves_made = {|(0, 0)|}, mines = {||}, safes = {|(0, 1)|},
          knowledge = []\<rparr> \<and>
   \<not> moves_made \<lparr>height = 1, width = 3, moves_made = {|(0, 0)|}, mines = {||},
                   safes = {|(0, 1)|}, knowledge = []\<rparr>
       |\<subseteq>| safes \<lparr>height = 1, width = 3, moves_made = {|(0, 0)|}, mines = {||},
                      safes = {|(0, 1)|}, knowledge = []\<rparr>"
  by code_simp

text \<open>
  Claim C6, as amended.  After any \<open>add_knowledge\<close> call returns, \<open>moves_made\<close> is the
  former set with the revealed cell added, and no cell of \<open>moves_made\<close> is in \<open>safes\<close>:
  \<open>clean_exceuted_safes\<close> has removed them.
\<close>

theorem moves_made_not_in_safes:
  "\<exists>ai'. add_knowledge ai cell n = Inr ai' \<and>
         moves_made ai' = finsert cell (moves_made ai) \<and>
         moves_made ai' |\<inter>| safes ai' = {||}"
  using add_knowledge_frame [of ai cell n] by (auto simp add: extends_def)

theorem moves_made_not_in_safes_witness:
  "add_knowledge (MinesweeperAI_init 1 3) (0, 0) 0 =
     Inr \<lparr>height = 1, width = 3, moves_made = {|(0, 0)|}, mines = {||}, safes = {|(0, 1)|},
          knowledge = []\<rparr> \<and>
   {|(0::int, 0::int)|} |\<inter>| {|(0, 1)|} = {||}"
proof -
  have run: "add_knowledge (MinesweeperAI_init 1 3) (0, 0) 0 =
     Inr \<lparr>height = 1, width = 3, moves_made = {|(0, 0)|}, mines = {||}, safes = {|(0, 1)|},
          knowledge = []\<rparr>"
    by code_simp
  from moves_made_not_in_safes [of "MinesweeperAI_init 1 3" "(0, 0)" 0] run
  show ?thesis by simp
qed

text \<open>
  Claim C7.  The claim is that no cell is ever removed from \<open>safes\<close>.  On a 1 x 3
  engine that has revealed \<open>(0, 0)\<close> with count 0, the cell \<open>(0, 1)\<close> is in \<open>safes\<close>;
  revealing it removes it from \<open>safes\<close>.
\<close>

theorem safes_shrink_counterexample:
  "add_knowledge_all (MinesweeperAI_init 1 3) [((0, 0), 0)] =
     Inr \<lparr>height = 1, width = 3, moves_made = {|(0, 0)|}, mines = {||}, safes = {|(0, 1)|},
          knowledge = []\<rparr> \<and>
   add_knowledge \<lparr>height = 1, width = 3, moves_made = {|(0, 0)|}, mines = {||},
                  safes = {|(0, 1)|}, knowledge = []\<rparr> (0, 1) 0 =
     Inr \<lparr>height = 1, width = 3, moves_made = {|(0, 0), (0, 1)|}, mines = {||},
          safes = {|(0, 2)|}, knowledge = []\<rparr> \<and>
   \<not> safes \<lparr>height = 1, width = 3, moves_made = {|(0, 0)|}, mines = {||},
              safes = {|(0, 1)|}, knowledge = []\<rparr>
       |\<subseteq>| safes \<lparr>height = 1, width = 3, moves_made = {|(0, 0), (0, 1)|}, mines = {||},
                      safes = {|(0, 2)|}, knowledge = []\<rparr>"
  by code_simp

text \<open>
  Claim C7, as amended.  Across one \<open>add_knowledge\<close> call, every cell of \<open>safes\<close> that
  is neither the revealed cell nor an earlier move stays in \<open>safes\<close>: the cells of
  \<open>moves_made\<close> are the only ones removed.
\<close>

theorem safes_kept_except_moves:
  "\<exists>ai'. add_knowledge ai cell n = Inr ai' \<and>
         safes ai |-| finsert cell (moves_made ai) |\<subseteq>| safes ai'"
  using add_knowledge_frame [of ai cell n] by (auto simp add: extends_def)

theorem safes_kept_except_moves_witness:
  "add_knowledge \<lparr>height = 1, width = 4, moves_made = {|(0, 0)|}, mines = {||},
                  safes = {|(0, 1), (0, 2)|}, knowledge = []\<rparr> (0, 1) 0 =
     Inr \<lparr>height = 1, width = 4, moves_made = {|(0, 0), (0, 1)|}, mines = {||},
          safes = {|(0, 2)|}, knowledge = []\<rparr> \<and>
   {|(0::int, 1::int), (0, 2)|} |-| {|(0, 1), (0, 0)|} |\<subseteq>| {|(0, 2)|}"
proof -
  have run: "add_knowledge \<lparr>height = 1, width = 4, moves_made = {|(0, 0)|}, mines = {||},
                  safes = {|(0, 1), (0, 2)|}, knowledge = []\<rparr> (0, 1) 0 =
     Inr \<lparr>height = 1, width = 4, moves_made = {|(0, 0), (0, 1)|}, mines = {||},
          safes = {|(0, 2)|}, knowledge = []\<rparr>"
    by code_simp
  from safes_kept_except_moves [of "\<lparr>height = 1, width = 4, moves_made = {|(0, 0)|},
      mines = {||}, safes = {|(0, 1), (0, 2)|}, knowledge = []\<rparr>" "(0, 1)" 0] run
  show ?thesis by simp
qed

section \<open>Clues reported by a board\<close>

lemma true_of_bounds:
  "true_of M s \<Longrightarrow> 0 \<le> count s \<and> count s \<le> int (fcard (cells s))"
  by (simp add: true_of_def fcard_mono)

lemma true_of_less_safe:
  assumes "true_of M s" and "X |\<inter>| M = {||}"
  shows "true_of M (s\<lparr>cells := cells s |-| X\<rparr>)"
proof -
  have "(cells s |-| X) |\<inter>| M = cells s |\<inter>| M"
    using assms(2) by (intro fset_eqI) auto
  with assms(1) show ?thesis by (simp add: true_of_def)
qed

lemma true_of_less_mines:
  assumes "true_of M s" and "X |\<subseteq>| M"
  shows "true_of M \<lparr>cells = cells s |-| X, count = count s - int (fcard (cells s |\<inter>| X))\<rparr>"
proof -
  have u: "cells s |\<inter>| M = ((cells s |-| X) |\<inter>| M) |\<union>| (cells s |\<inter>| X)"
    using assms(2) by (intro fset_eqI) auto
  have d: "((cells s |-| X) |\<inter>| M) |\<inter>| (cells s |\<inter>| X) = {||}"
    by (intro fset_eqI) auto
  have "fcard (cells s |\<inter>| M) = fcard ((cells s |-| X) |\<inter>| M) + fcard (cells s |\<inter>| X)"
    by (subst u) (rule fcard_funion_disjoint [OF d])
  with assms(1) show ?thesis by (simp add: true_of_def)
qed

lemma true_of_all_mines:
  assumes "true_of M s" and "int (fcard (cells s)) = count s"
  shows "cells s |\<subseteq>| M"
proof -
  have "cells s |\<inter>| M = cells s"
    using assms by (intro fcard_seteq) (simp_all add: true_of_def)
  then show ?thesis by auto
qed

lemma true_of_all_safe:
  assumes "true_of M s" and "count s = 0"
  shows "cells s |\<inter>| M = {||}"
  using assms by (simp add: true_of_def)

lemma mark_sentence_sound:
  assumes "sound M ai" and "true_of M s"
  shows "sound M (mark_sentence s ai)"
proof -
  note d = distinct_sorted_list_of_fset [of "cells s"]
  have m: "sound M (mark_found_mines (sorted_list_of_fset (cells s)) ai)"
    if "int (fcard (cells s)) = count s"
  proof -
    from assms(2) that have "cells s |\<subseteq>| M" by (rule true_of_all_mines)
    with assms(1) show ?thesis
      by (auto simp add: sound_def mark_found_mines_eq fold_Sentence_mark_mine [OF d]
          true_of_less_mines)
  qed
  have f: "sound M (mark_found_safes (sorted_list_of_fset (cells s)) ai)"
    if "count s = 0"
  proof -
    from assms(2) that have "cells s |\<inter>| M = {||}" by (rule true_of_all_safe)
    then have x: "(cells s |-| moves_made ai) |\<inter>| M = {||}"
      by (intro fset_eqI) auto
    have "safes ai |\<inter>| M = {||} \<Longrightarrow> (safes ai |\<union>| (cells s |-| moves_made ai)) |\<inter>| M = {||}"
      using x by (intro fset_eqI) auto
    with assms(1) x show ?thesis
      by (simp add: sound_def mark_found_safes_eq true_of_less_safe)
  qed
  from m f assms(1) show ?thesis
    by (simp add: mark_sentence_cases)
qed

lemma mark_mines_safes_sound:
  assumes "sound M ai"
  shows "sound M (mark_mines_safes ai)"
proof -
  let ?P = "\<lambda>a. sound M a \<and> length (knowledge a) = length (knowledge ai)"
  have "?P (mark_mines_safes ai)"
    unfolding mark_mines_safes_def
  proof (rule fold_invariant [where P = ?P])
    show "?P ai" using assms by simp
  next
    fix k a
    assume k: "k \<in> set [0..<length (knowledge ai)]" and a: "?P a"
    then have "knowledge a ! k \<in> set (knowledge a)" by simp
    with a have "true_of M (knowledge a ! k)"
      by (simp add: sound_def)
    with a show "?P (mark_sentence (knowledge a ! k) a)"
      by (simp add: mark_sentence_sound mark_sentence_extends)
  qed
  then show ?thesis by simp
qed

lemma mark_and_clean_sound:
  assumes "sound M ai" and "mark_and_clean ai = Inr ai'"
  shows "sound M ai'"
proof -
  from mark_and_clean_props [of ai] assms(2)
  have "set (knowledge ai') \<subseteq> set (knowledge (mark_mines_safes ai))"
    and "mines ai' = mines (mark_mines_safes ai)" and "safes ai' = safes (mark_mines_safes ai)"
    and "extends ai ai'"
    by auto
  with mark_mines_safes_sound [OF assms(1)] assms(1) show ?thesis
    by (auto simp add: sound_def extends_def)
qed

lemma mark_safe_sound:
  "sound M ai \<Longrightarrow> cell |\<notin>| M \<Longrightarrow> sound M (mark_safe cell ai)"
proof -
  assume s: "sound M ai" and c: "cell |\<notin>| M"
  then have "{|cell|} |\<inter>| M = {||}" by simp
  with s show ?thesis
    using true_of_less_safe [of M _ "{|cell|}"]
    by (simp add: sound_def mark_safe_def Sentence_mark_safe_def)
qed

lemma length_filter_fcard:
  "distinct xs \<Longrightarrow> length (filter P xs) = fcard (ffilter P (fset_of_list xs))"
proof -
  assume "distinct xs"
  then have "distinct (filter P xs)" by simp
  then have "length (filter P xs) = card (set (filter P xs))"
    by (rule distinct_card [symmetric])
  also have "\<dots> = fcard (fset_of_list (filter P xs))"
    by (simp only: fcard.rep_eq fset_of_list.rep_eq)
  finally show ?thesis by simp
qed

lemma new_sentence_true:
  assumes "sound M ai" and "distinct ns"
    and "n = int (length (filter (\<lambda>c. c |\<in>| M) ns))"
  shows "true_of M
     (Sentence_init
        (fset_of_list (filter (\<lambda>c. c |\<notin>| mines ai \<and> c |\<notin>| safes ai \<and> c |\<notin>| moves_made ai) ns))
        (n - int (length (filter (\<lambda>c. c |\<in>| mines ai) ns))))"
proof -
  let ?N = "fset_of_list ns"
  let ?U = "ffilter (\<lambda>c. c |\<notin>| mines ai \<and> c |\<notin>| safes ai \<and> c |\<notin>| moves_made ai) ?N"
  let ?K = "ffilter (\<lambda>c. c |\<in>| mines ai) ?N"
  from assms(1) have m: "\<And>c. c |\<in>| mines ai \<Longrightarrow> c |\<in>| M"
    and s: "\<And>c. c |\<in>| M \<Longrightarrow> c |\<notin>| safes ai \<and> c |\<notin>| moves_made ai"
    by (auto simp add: sound_def)
  have u: "ffilter (\<lambda>c. c |\<in>| M) ?N = (?U |\<inter>| M) |\<union>| ?K"
    using m s by (intro fset_eqI) auto
  have d: "(?U |\<inter>| M) |\<inter>| ?K = {||}"
    by (intro fset_eqI) auto
  have "fcard (ffilter (\<lambda>c. c |\<in>| M) ?N) = fcard (?U |\<inter>| M) + fcard ?K"
    by (subst u) (rule fcard_funion_disjoint [OF d])
  then have "int (length (filter (\<lambda>c. c |\<in>| M) ns))
        - int (length (filter (\<lambda>c. c |\<in>| mines ai) ns)) = int (fcard (?U |\<inter>| M))"
    by (simp add: length_filter_fcard [OF assms(2)])
  with assms(3) show ?thesis
    by (simp add: true_of_def Sentence_init_def)
qed

lemma add_new_sentence_sound:
  assumes "sound M ai" and "distinct (neighbors ai cell)"
    and "n = int (length (filter (\<lambda>c. c |\<in>| M) (neighbors ai cell)))"
  shows "sound M (add_new_sentence cell n ai)"
  using add_new_sentence_cases [of cell n ai] assms(1) new_sentence_true [OF assms]
  by (auto simp add: sound_def)

lemma derived_candidate_true:
  assumes "sound M ai" and "consistent ai"
    and "A \<in> set (knowledge ai)" and "B \<in> set (knowledge ai)" and "cells A |\<subseteq>| cells B"
  shows "true_of M (derived_candidate ai A B)"
proof -
  let ?F = "ffilter (\<lambda>c. c |\<notin>| moves_made ai \<and> c |\<notin>| safes ai \<and> c |\<notin>| mines ai)
              (cells B |-| cells A)"
  from assms(1,3,4) have a: "true_of M A" and b: "true_of M B"
    by (simp_all add: sound_def)
  from assms(1) have s: "\<And>c. c |\<in>| M \<Longrightarrow> c |\<notin>| safes ai \<and> c |\<notin>| moves_made ai"
    by (auto simp add: sound_def)
  from assms(2,4) have k: "\<And>c. c |\<in>| cells B \<Longrightarrow> c |\<notin>| mines ai"
    unfolding consistent_iff by blast
  have f: "?F |\<inter>| M = (cells B |-| cells A) |\<inter>| M"
    using s k by (intro fset_eqI) auto
  have u: "cells B |\<inter>| M = ((cells B |-| cells A) |\<inter>| M) |\<union>| (cells A |\<inter>| M)"
    using assms(5) by (intro fset_eqI) auto
  have d: "((cells B |-| cells A) |\<inter>| M) |\<inter>| (cells A |\<inter>| M) = {||}"
    by (intro fset_eqI) auto
  have "fcard (cells B |\<inter>| M) = fcard ((cells B |-| cells A) |\<inter>| M) + fcard (cells A |\<inter>| M)"
    by (subst u) (rule fcard_funion_disjoint [OF d])
  with a b have "count B - count A = int (fcard ((cells B |-| cells A) |\<inter>| M))"
    by (simp add: true_of_def)
  then show ?thesis
    by (simp add: true_of_def derived_candidate_def Sentence_init_def f)
qed

lemma subset_inference_sound:
  assumes "sound M ai" and "consistent ai"
  shows "sound M (subset_inference ai)"
proof -
  have "\<And>s. s \<in> set (infer_sub_sentences ai) \<Longrightarrow> true_of M s"
    using derived_candidate_true [OF assms]
    by (auto simp add: infer_sub_sentences_mem queued_def)
  with assms(1) show ?thesis
    by (auto simp add: sound_def subset_inference_def)
qed


lemma mine_layout_iff:
  "(i, j) |\<in>| mine_layout g \<longleftrightarrow>
     0 \<le> i \<and> i < board_height g \<and> 0 \<le> j \<and> j < board_width g \<and> board_at g i j = Inr True"
  by (auto simp add: mine_layout_def fset_of_list_elem py_range_def)

lemma is_mine_False_not_in_layout:
  "is_mine g cell = Inr False \<Longrightarrow> cell |\<notin>| mine_layout g"
  by (cases cell) (simp add: is_mine_def mine_layout_iff)

lemma nearby_cols_eq:
  "nearby_cols g cell i js n = Inr r \<Longrightarrow>
   r = n + int (length (filter (\<lambda>c. c |\<in>| mine_layout g)
         (concat (map (\<lambda>j. if (i, j) = cell then []
                            else if 0 \<le> i \<and> i < board_height g \<and> 0 \<le> j \<and> j < board_width g
                                 then [(i, j)] else []) js))))"
proof (induction js arbitrary: n)
  case Nil
  then show ?case by simp
next
  case (Cons j js)
  show ?case
  proof (cases "(i, j) \<noteq> cell \<and> 0 \<le> i \<and> i < board_height g \<and> 0 \<le> j \<and> j < board_width g")
    case True
    with Cons.prems obtain b where b: "board_at g i j = Inr b"
      and r: "nearby_cols g cell i js (if b then n + 1 else n) = Inr r"
      by (auto split: sum.splits)
    from True b have "(i, j) |\<in>| mine_layout g \<longleftrightarrow> b"
      by (simp add: mine_layout_iff)
    with Cons.IH [OF r] True show ?thesis by auto
  next
    case False
    with Cons.prems have "nearby_cols g cell i js n = Inr r"
      by (auto split: if_splits)
    from Cons.IH [OF this] False show ?thesis by auto
  qed
qed

lemma nearby_rows_eq:
  "nearby_rows g cell rows n = Inr r \<Longrightarrow>
   r = n + int (length (filter (\<lambda>c. c |\<in>| mine_layout g)
         (concat (map (\<lambda>i. concat (map (\<lambda>j. if (i, j) = cell then []
                            else if 0 \<le> i \<and> i < board_height g \<and> 0 \<le> j \<and> j < board_width g
                                 then [(i, j)] else [])
                     (py_range (snd cell - 1) (snd cell + 2)))) rows))))"
proof (induction rows arbitrary: n)
  case Nil
  then show ?case by simp
next
  case (Cons i rows)
  from Cons.prems obtain n' where
    c: "nearby_cols g cell i (py_range (snd cell - 1) (snd cell + 2)) n = Inr n'"
    and r: "nearby_rows g cell rows n' = Inr r"
    by (auto split: sum.splits)
  from nearby_cols_eq [OF c] Cons.IH [OF r] show ?case by simp
qed

lemma nearby_mines_counts_neighbors:
  assumes "nearby_mines g cell = Inr n"
    and "height ai = board_height g" and "width ai = board_width g"
  shows "n = int (length (filter (\<lambda>c. c |\<in>| mine_layout g) (neighbors ai cell)))"
proof -
  from assms(1) have "nearby_rows g cell (py_range (fst cell - 1) (fst cell + 2)) 0 = Inr n"
    by (simp add: nearby_mines_def)
  from nearby_rows_eq [OF this] show ?thesis
    unfolding neighbors_def assms(2,3) by simp
qed

lemma neighbors_row:
  "concat (map (\<lambda>j. if (i, j) = cell then [] else if G j then [(i, j)] else []) js) =
     map (Pair i) (filter (\<lambda>j. (i, j) \<noteq> cell \<and> G j) js)"
  by (induction js) auto

lemma distinct_rows:
  "distinct rows \<Longrightarrow> distinct js \<Longrightarrow>
   distinct (concat (map (\<lambda>i. map (Pair i) (filter (Q i) js)) rows))"
proof (induction rows)
  case Nil
  show ?case by simp
next
  case (Cons i rows)
  then have "distinct (map (Pair i) (filter (Q i) js))"
    by (simp add: distinct_map inj_on_def)
  moreover have "set (map (Pair i) (filter (Q i) js)) \<inter>
        set (concat (map (\<lambda>i. map (Pair i) (filter (Q i) js)) rows)) = {}"
    using Cons.prems by auto
  ultimately show ?case using Cons by simp
qed

lemma distinct_neighbors: "distinct (neighbors ai cell)"
  unfolding neighbors_def neighbors_row
  by (rule distinct_rows) (simp_all add: py_range_def)


lemma neighbors_same_grid:
  "height a = height b \<Longrightarrow> width a = width b \<Longrightarrow> neighbors a cell = neighbors b cell"
  by (simp add: neighbors_def cong: if_cong)

lemma add_knowledge_sound:
  assumes "sound M ai" and "consistent ai" and "cell |\<notin>| M"
    and "n = int (length (filter (\<lambda>c. c |\<in>| M) (neighbors ai cell)))"
    and "add_knowledge ai cell n = Inr ai'"
  shows "sound M ai'"
proof -
  let ?a1 = "ai\<lparr>moves_made := finsert cell (moves_made ai)\<rparr>"
  let ?a2 = "mark_safe cell ?a1"
  let ?a3 = "add_new_sentence cell n ?a2"
  obtain ai4 ai5 where 4: "mark_and_clean ?a3 = Inr ai4"
    and 5: "mark_and_clean (subset_inference ai4) = Inr ai5"
    and r: "add_knowledge ai cell n = Inr (ai5\<lparr>safes := safes ai5 |-| moves_made ai5\<rparr>)"
    using add_knowledge_steps by blast
  from assms(1,3) have "sound M ?a1" by (simp add: sound_def)
  then have s2: "sound M ?a2" using assms(3) by (rule mark_safe_sound)
  from assms(2) have "consistent ?a1" by (simp add: consistent_def)
  then have c3: "consistent ?a3"
    by (simp add: mark_safe_consistent add_new_sentence_consistent)
  have nb: "neighbors ?a2 cell = neighbors ai cell"
    by (rule neighbors_same_grid) (simp_all add: mark_safe_def)
  have "sound M ?a3"
    using s2 by (rule add_new_sentence_sound) (simp_all add: nb distinct_neighbors assms(4))
  then have s4: "sound M ai4" using 4 by (rule mark_and_clean_sound)
  from c3 4 have c4: "consistent ai4" by (rule mark_and_clean_consistent)
  from s4 c4 have "sound M (subset_inference ai4)" by (rule subset_inference_sound)
  then have "sound M ai5" using 5 by (rule mark_and_clean_sound)
  then have "sound M (ai5\<lparr>safes := safes ai5 |-| moves_made ai5\<rparr>)"
    by (auto simp add: sound_def)
  with r assms(5) show ?thesis by simp
qed

lemma add_knowledge_same_grid:
  "add_knowledge ai cell n = Inr ai' \<Longrightarrow> height ai' = height ai \<and> width ai' = width ai"
  using add_knowledge_frame [of ai cell n] by (auto simp add: extends_def)

lemma add_knowledge_all_sound:
  assumes "sound (mine_layout g) ai" and "consistent ai"
    and "height ai = board_height g" and "width ai = board_width g"
    and "\<forall>(cell, n) \<in> set calls. is_mine g cell = Inr False \<and> nearby_mines g cell = Inr n"
  shows "\<exists>ai'. add_knowledge_all ai calls = Inr ai' \<and> sound (mine_layout g) ai'"
  using assms
proof (induction calls arbitrary: ai)
  case Nil
  then show ?case by simp
next
  case (Cons call calls)
  obtain cell n where call: "call = (cell, n)" by (cases call)
  with Cons.prems(5) have m: "is_mine g cell = Inr False" and nm: "nearby_mines g cell = Inr n"
    and rest: "\<forall>(cell, n) \<in> set calls. is_mine g cell = Inr False \<and> nearby_mines g cell = Inr n"
    by simp_all
  obtain ai1 where 1: "add_knowledge ai cell n = Inr ai1"
    using add_knowledge_frame by blast
  from m have "cell |\<notin>| mine_layout g" by (rule is_mine_False_not_in_layout)
  moreover from nm Cons.prems(3,4)
  have "n = int (length (filter (\<lambda>c. c |\<in>| mine_layout g) (neighbors ai cell)))"
    by (rule nearby_mines_counts_neighbors)
  ultimately have "sound (mine_layout g) ai1"
    using Cons.prems(1,2) 1 add_knowledge_sound by blast
  moreover from Cons.prems(2) 1 have "consistent ai1" by (rule add_knowledge_consistent)
  moreover from 1 Cons.prems(3,4) have "height ai1 = board_height g" "width ai1 = board_width g"
    using add_knowledge_same_grid by auto
  ultimately have "\<exists>ai'. add_knowledge_all ai1 calls = Inr ai' \<and> sound (mine_layout g) ai'"
    using rest by (intro Cons.IH)
  with 1 call show ?case by simp
qed

text \<open>
  Claim C5.  The claim is that after any \<open>add_knowledge\<close> call every sentence has
  \<open>0 \<le> count \<le> |cells|\<close>.  On a fresh 3 x 3 engine, the clues 2 for \<open>(0, 0)\<close> and 1 for
  \<open>(1, 1)\<close>, each within the number of neighbours of its cell, leave a sentence of
  count \<open>-1\<close>.
\<close>

theorem count_bound_counterexample:
  "add_knowledge_all (MinesweeperAI_init 3 3) [((0, 0), 2), ((1, 1), 1)] =
     Inr \<lparr>height = 3, width = 3, moves_made = {|(0, 0), (1, 1)|}, mines = {|(0, 1), (1, 0)|},
          safes = {||},
          knowledge = [\<lparr>cells = {|(0, 2), (1, 2), (2, 0), (2, 1), (2, 2)|}, count = - 1\<rparr>]\<rparr> \<and>
   \<not> 0 \<le> count \<lparr>cells = {|(0, 2), (1, 2), (2, 0), (2, 1), (2, 2)|}, count = - 1\<rparr>"
  by code_simp

text \<open>
  Claim C5, as amended.  When every call passes a cell for which the board's \<open>is_mine\<close>
  is false, together with the board's \<open>nearby_mines\<close> of that cell, then on a fresh engine
  of the board's dimensions every call returns and afterwards every sentence of the
  knowledge base has \<open>0 \<le> count \<le> |cells|\<close>.
\<close>

theorem counts_bounded_on_board_clues:
  assumes "\<forall>(cell, n) \<in> set calls. is_mine g cell = Inr False \<and> nearby_mines g cell = Inr n"
  shows "\<exists>ai'. add_knowledge_all (MinesweeperAI_init (board_height g) (board_width g)) calls
                 = Inr ai' \<and>
               (\<forall>s \<in> set (knowledge ai'). 0 \<le> count s \<and> count s \<le> int (fcard (cells s)))"
proof -
  let ?ai = "MinesweeperAI_init (board_height g) (board_width g)"
  have "sound (mine_layout g) ?ai" "consistent ?ai"
    "height ?ai = board_height g" "width ?ai = board_width g"
    by (simp_all add: sound_def consistent_def MinesweeperAI_init_def)
  from add_knowledge_all_sound [OF this assms] show ?thesis
    using true_of_bounds by (auto simp add: sound_def)
qed

theorem counts_bounded_on_board_clues_witness:
  "is_mine \<lparr>board_height = 2, board_width = 3,
             board = [[False, False, True], [False, False, False]]\<rparr> (0, 0) = Inr False \<and>
   nearby_mines \<lparr>board_height = 2, board_width = 3,
             board = [[False, False, True], [False, False, False]]\<rparr> (0, 0) = Inr 0 \<and>
   is_mine \<lparr>board_height = 2, board_width = 3,
             board = [[False, False, True], [False, False, False]]\<rparr> (0, 1) = Inr False \<and>
   nearby_mines \<lparr>board_height = 2, board_width = 3,
             board = [[False, False, True], [False, False, False]]\<rparr> (0, 1) = Inr 1 \<and>
   add_knowledge_all (MinesweeperAI_init 2 3) [((0, 0), 0), ((0, 1), 1)] =
     Inr \<lparr>height = 2, width = 3, moves_made = {|(0, 0), (0, 1)|}, mines = {||},
          safes = {|(1, 0), (1, 1)|},
          knowledge = [\<lparr>cells = {|(0, 2), (1, 2)|}, count = 1\<rparr>]\<rparr> \<and>
   (0::int) \<le> 1 \<and> (1::int) \<le> int (fcard {|(0::int, 2::int), (1, 2)|})"
proof -
  let ?g = "\<lparr>board_height = 2, board_width = 3,
             board = [[False, False, True], [False, False, False]]\<rparr>"
  have q: "is_mine ?g (0, 0) = Inr False" "nearby_mines ?g (0, 0) = Inr 0"
      "is_mine ?g (0, 1) = Inr False" "nearby_mines ?g (0, 1) = Inr 1"
    by code_simp+
  then have h: "\<forall>(cell, n) \<in> set [((0, 0), 0), ((0, 1), 1)].
      is_mine ?g cell = Inr False \<and> nearby_mines ?g cell = Inr n"
    by simp
  have run: "add_knowledge_all (MinesweeperAI_init 2 3) [((0, 0), 0), ((0, 1), 1)] =
     Inr \<lparr>height = 2, width = 3, moves_made = {|(0, 0), (0, 1)|}, mines = {||},
          safes = {|(1, 0), (1, 1)|},
          knowledge = [\<lparr>cells = {|(0, 2), (1, 2)|}, count = 1\<rparr>]\<rparr>"
    by code_simp
  from counts_bounded_on_board_clues [OF h] run q show ?thesis
    by simp
qed

text \<open>
  Claim C2.  The claim is that the sentence derived from a pair \<open>(A, B)\<close> with
  \<open>A.cells \<subseteq> B.cells\<close> has the count \<open>B.count - A.count\<close>.  On a fresh 3 x 3 engine, after
  the clues 1 for \<open>(1, 1)\<close> and 2 for \<open>(0, 1)\<close>, the knowledge base holds \<open>B\<close> with count 1
  and \<open>A\<close> with count 2, and the derived sentence has count 1, not \<open>-1\<close>.
\<close>

theorem subset_count_counterexample:
  "add_knowledge_all (MinesweeperAI_init 3 3) [((1, 1), 1), ((0, 1), 2)] =
     Inr \<lparr>height = 3, width = 3, moves_made = {|(0, 1), (1, 1)|}, mines = {||}, safes = {||},
          knowledge =
            [\<lparr>cells = {|(0, 0), (0, 2), (1, 0), (1, 2), (2, 0), (2, 1), (2, 2)|}, count = 1\<rparr>,
             \<lparr>cells = {|(0, 0), (0, 2), (1, 0), (1, 2)|}, count = 2\<rparr>,
             \<lparr>cells = {|(2, 0), (2, 1), (2, 2)|}, count = 1\<rparr>]\<rparr> \<and>
   infer_sub_sentences
     \<lparr>height = 3, width = 3, moves_made = {|(0, 1), (1, 1)|}, mines = {||}, safes = {||},
      knowledge =
        [\<lparr>cells = {|(0, 0), (0, 2), (1, 0), (1, 2), (2, 0), (2, 1), (2, 2)|}, count = 1\<rparr>,
         \<lparr>cells = {|(0, 0), (0, 2), (1, 0), (1, 2)|}, count = 2\<rparr>]\<rparr>
     = [\<lparr>cells = {|(2, 0), (2, 1), (2, 2)|}, count = 1\<rparr>] \<and>
   {|(0::int, 0::int), (0, 2), (1, 0), (1, 2)|}
     |\<subseteq>| {|(0, 0), (0, 2), (1, 0), (1, 2), (2, 0), (2, 1), (2, 2)|} \<and>
   count \<lparr>cells = {|(2, 0), (2, 1), (2, 2)|}, count = 1\<rparr>
     \<noteq> count \<lparr>cells = {|(0, 0), (0, 2), (1, 0), (1, 2), (2, 0), (2, 1), (2, 2)|}, count = 1\<rparr>
       - count \<lparr>cells = {|(0, 0), (0, 2), (1, 0), (1, 2)|}, count = 2\<rparr>"
  by code_simp

text \<open>
  Claim C2, as amended.  The subset inference queues, for the ordered pairs \<open>(A, B)\<close> of
  sentences of the knowledge base in order, the sentence with the cells of
  \<open>B.cells - A.cells\<close> that are not in \<open>moves_made\<close>, \<open>safes\<close> or \<open>mines\<close> and with the
  count \<open>|B.count - A.count|\<close>, whenever \<open>A.cells \<subseteq> B.cells\<close>, these cells are not empty and
  the sentence is not in the knowledge base yet; the queue is then appended to the
  knowledge base.  The count is \<open>B.count - A.count\<close> when \<open>A.count \<le> B.count\<close>.
\<close>

theorem subset_inference_derives:
  "infer_sub_sentences ai =
     concat (map (\<lambda>A. concat (map (\<lambda>B.
         let new_sentence =
               \<lparr>cells = ffilter (\<lambda>c. c |\<notin>| moves_made ai \<and> c |\<notin>| safes ai \<and> c |\<notin>| mines ai)
                                 (cells B |-| cells A),
                count = \<bar>count B - count A\<bar>\<rparr>
         in if cells A |\<subseteq>| cells B \<and> cells new_sentence \<noteq> {||} \<and>
               new_sentence \<notin> set (knowledge ai)
            then [new_sentence] else [])
       (knowledge ai))) (knowledge ai)) \<and>
   knowledge (subset_inference ai) = knowledge ai @ infer_sub_sentences ai"
  unfolding infer_sub_sentences_eq subset_inference_def queued_def derived_candidate_def
    Sentence_init_def Let_def
  by simp

theorem subset_inference_derives_witness:
  "infer_sub_sentences
     \<lparr>height = 1, width = 3, moves_made = {||}, mines = {||}, safes = {||},
      knowledge = [\<lparr>cells = {|(0, 0), (0, 1)|}, count = 1\<rparr>,
                   \<lparr>cells = {|(0, 0), (0, 1), (0, 2)|}, count = 1\<rparr>]\<rparr>
   = [\<lparr>cells = {|(0, 2)|}, count = 0\<rparr>]"
proof -
  have "infer_sub_sentences
     \<lparr>height = 1, width = 3, moves_made = {||}, mines = {||}, safes = {||},
      knowledge = [\<lparr>cells = {|(0, 0), (0, 1)|}, count = 1\<rparr>,
                   \<lparr>cells = {|(0, 0), (0, 1), (0, 2)|}, count = 1\<rparr>]\<rparr>
   = [\<lparr>cells = {|(0, 2)|}, count = 0\<rparr>]"
    by code_simp
  with subset_inference_derives [of "\<lparr>height = 1, width = 3, moves_made = {||}, mines = {||},
      safes = {||},
      knowledge = [\<lparr>cells = {|(0, 0), (0, 1)|}, count = 1\<rparr>,
                   \<lparr>cells = {|(0, 0), (0, 1), (0, 2)|}, count = 1\<rparr>]\<rparr>"]
  show ?thesis by simp
qed

end
